theory Spec2Isabelle
  imports Main "HOL-Library.Word" "HOL-Library.Sublist"
begin

section \<open>Strings and character classes\<close>

text \<open>
  A JavaScript string is a sequence of UTF-16 code units. The regular expressions of
  \<^verbatim>\<open>chatStream.subscribe\<close> carry no \<^verbatim>\<open>u\<close> flag, so they match code unit by
  code unit, and \<^verbatim>\<open>substring\<close>, \<^verbatim>\<open>length\<close> and \<^verbatim>\<open>index\<close> count code units too.
\<close>

type_synonym code_unit = "16 word"
type_synonym jsstring = "code_unit list"

definition ascii :: "string \<Rightarrow> jsstring" where
  "ascii s = map (\<lambda>c. of_nat (of_char c)) s"

definition LF :: code_unit where
  "LF = 0x0A"

text \<open>The character class \<^verbatim>\<open>[\<dots>\n]\<close> of the first pattern: the ideographic full stop
  U+3002, the fullwidth question mark U+FF1F, the fullwidth exclamation mark U+FF01, and
  the line feed.\<close>

definition cjk_class :: "code_unit \<Rightarrow> bool" where
  "cjk_class c = (c = 0x3002 \<or> c = 0xFF1F \<or> c = 0xFF01 \<or> c = LF)"

text \<open>The character class \<^verbatim>\<open>[.?!]\<close> of the second pattern.\<close>

definition en_class :: "code_unit \<Rightarrow> bool" where
  "en_class c = (c = 0x2E \<or> c = 0x3F \<or> c = 0x21)"

text \<open>The class \<^verbatim>\<open>\s\<close> of ECMAScript: WhiteSpace and LineTerminator. The same set is
  what \<^verbatim>\<open>String.prototype.trim\<close> strips.\<close>

definition js_space :: "code_unit \<Rightarrow> bool" where
  "js_space c =
     (c = 0x09 \<or> c = 0x0A \<or> c = 0x0B \<or> c = 0x0C \<or> c = 0x0D \<or> c = 0x20 \<or>
      c = 0xA0 \<or> c = 0x1680 \<or> (0x2000 \<le> c \<and> c \<le> 0x200A) \<or>
      c = 0x2028 \<or> c = 0x2029 \<or> c = 0x202F \<or> c = 0x205F \<or> c = 0x3000 \<or>
      c = 0xFEFF)"

text \<open>\<^verbatim>\<open>s.substring(a, b)\<close> and \<^verbatim>\<open>s.substring(a)\<close>: both arguments are clamped to
  \<open>[0, length s]\<close> and swapped when the first exceeds the second.\<close>

definition clamp_index :: "jsstring \<Rightarrow> int \<Rightarrow> nat" where
  "clamp_index s i = min (nat i) (length s)"

definition substring2 :: "jsstring \<Rightarrow> int \<Rightarrow> int \<Rightarrow> jsstring" where
  "substring2 s a b =
     (let from = min (clamp_index s a) (clamp_index s b);
          to = max (clamp_index s a) (clamp_index s b)
      in take (to - from) (drop from s))"

definition substring1 :: "jsstring \<Rightarrow> int \<Rightarrow> jsstring" where
  "substring1 s a = drop (clamp_index s a) s"

section \<open>The two boundary patterns\<close>

text \<open>
  \<^verbatim>\<open>messageBuffer.match(re)\<close> with a non-global pattern returns \<^verbatim>\<open>null\<close> or the leftmost
  match: its \<^verbatim>\<open>index\<close> and the matched text \<^verbatim>\<open>[0]\<close>. A match is modelled as that
  pair, \<^verbatim>\<open>null\<close> as \<open>None\<close>.
\<close>

type_synonym regex_match = "nat \<times> jsstring"

definition shift_match :: "regex_match option \<Rightarrow> regex_match option" where
  "shift_match m = map_option (\<lambda>(i, t). (Suc i, t)) m"

text \<open>The first pattern: one code unit of \<open>cjk_class\<close>.\<close>

fun cjkMatch :: "jsstring \<Rightarrow> regex_match option" where
  "cjkMatch [] = None"
| "cjkMatch (c # cs) = (if cjk_class c then Some (0, [c]) else shift_match (cjkMatch cs))"

text \<open>The second pattern \<^verbatim>\<open>/[.?!]\s|\n/\<close>: at each position the first alternative is
  tried before the second.\<close>

fun en_alt1 :: "jsstring \<Rightarrow> jsstring option" where
  "en_alt1 (c # d # _) = (if en_class c \<and> js_space d then Some [c, d] else None)"
| "en_alt1 _ = None"

fun en_alt2 :: "jsstring \<Rightarrow> jsstring option" where
  "en_alt2 (c # _) = (if c = LF then Some [c] else None)"
| "en_alt2 _ = None"

fun enMatch :: "jsstring \<Rightarrow> regex_match option" where
  "enMatch [] = None"
| "enMatch (c # cs) =
     (case en_alt1 (c # cs) of
        Some t \<Rightarrow> Some (0, t)
      | None \<Rightarrow>
         (case en_alt2 (c # cs) of
            Some t \<Rightarrow> Some (0, t)
          | None \<Rightarrow> shift_match (enMatch cs)))"

section \<open>The boundary scan\<close>

text \<open>Lines 157 to 165: \<^verbatim>\<open>breakPos\<close> starts at \<open>-1\<close> and \<^verbatim>\<open>breakSize\<close> at \<open>1\<close>; the first
  pattern is consulted first, the second only when the first found nothing.\<close>

definition break_point :: "jsstring \<Rightarrow> int \<times> int" where
  "break_point messageBuffer =
     (case cjkMatch messageBuffer of
        Some (index, _) \<Rightarrow> (int index, 1)
      | None \<Rightarrow>
         (case enMatch messageBuffer of
            Some (index, t) \<Rightarrow> (int index, int (length t))
          | None \<Rightarrow> (- 1, 1)))"

text \<open>The inner \<^verbatim>\<open>while (true)\<close> of lines 151 to 171. Its result is the list
  \<^verbatim>\<open>segments\<close> and the buffer that is left; \<open>None\<close> stands for a loop that never
  leaves.\<close>

partial_function (option) segment_loop ::
  "jsstring \<Rightarrow> jsstring list \<Rightarrow> (jsstring list \<times> jsstring) option" where
  "segment_loop messageBuffer segments =
     (case break_point messageBuffer of
        (breakPos, breakSize) \<Rightarrow>
          if breakPos = - 1 then Some (segments, messageBuffer)
          else segment_loop (substring1 messageBuffer (breakPos + breakSize))
                 (segments @ [substring2 messageBuffer 0 (breakPos + breakSize)]))"

declare segment_loop.simps [code]

text \<open>Lines 147 and 150 to 171 together: the chunk is appended to the buffer and the scan
  starts with an empty \<^verbatim>\<open>segments\<close> array.\<close>

definition feed :: "jsstring \<Rightarrow> jsstring \<Rightarrow> (jsstring list \<times> jsstring) option" where
  "feed messageBuffer chunk = segment_loop (messageBuffer @ chunk) []"

text \<open>A text that ends at a boundary: its last code unit is one of the marks of the first
  pattern (the line feed among them), or its last two code units are a mark of \<^verbatim>\<open>[.?!]\<close>
  and a whitespace code unit.\<close>

definition ends_at_boundary :: "jsstring \<Rightarrow> bool" where
  "ends_at_boundary s =
     (case rev s of
        [] \<Rightarrow> False
      | d # r \<Rightarrow> cjk_class d \<or> (case r of [] \<Rightarrow> False | c # _ \<Rightarrow> en_class c \<and> js_space d))"

section \<open>Errors, values and the upstream response\<close>

text \<open>An exception value, with the two fields the \<^verbatim>\<open>catch\<close> block reads.\<close>

datatype js_error = JsError (error_name: string) (error_message: jsstring)

text \<open>
  What \<^verbatim>\<open>response.json()\<close> can resolve to. \<open>JPrim\<close> stands for a number or a boolean,
  given by its truthiness and its string conversion. The fields of \<open>JObj\<close> are the own
  properties of the object. Only the properties \<^verbatim>\<open>error\<close> and \<^verbatim>\<open>message\<close> are read here,
  and neither a primitive, a string nor an array has one of them.
\<close>

datatype jsval =
    JUndefined
  | JNull
  | JPrim bool jsstring
  | JStr jsstring
  | JArr "jsval list"
  | JObj "(jsstring \<times> jsval) list"

definition null_property_error :: "string \<Rightarrow> js_error" where
  "null_property_error key =
     JsError ''TypeError''
       (ascii ''Cannot read properties of null (reading '' @ [0x27] @ ascii key @ [0x27] @ ascii '')'')"

definition undefined_property_error :: "string \<Rightarrow> js_error" where
  "undefined_property_error key =
     JsError ''TypeError''
       (ascii ''Cannot read properties of undefined (reading '' @ [0x27] @ ascii key @ [0x27] @
        ascii '')'')"

definition to_primitive_error :: js_error where
  "to_primitive_error = JsError ''TypeError'' (ascii ''Cannot convert object to primitive value'')"

text \<open>\<^verbatim>\<open>v.key\<close>: reading a property of \<^verbatim>\<open>null\<close> or \<^verbatim>\<open>undefined\<close> throws.\<close>

fun get_prop :: "jsval \<Rightarrow> string \<Rightarrow> js_error + jsval" where
  "get_prop JNull key = Inl (null_property_error key)"
| "get_prop JUndefined key = Inl (undefined_property_error key)"
| "get_prop (JObj fields) key =
     (case map_of fields (ascii key) of None \<Rightarrow> Inr JUndefined | Some v \<Rightarrow> Inr v)"
| "get_prop _ key = Inr JUndefined"

text \<open>\<^verbatim>\<open>v?.key\<close>: short-circuits to \<^verbatim>\<open>undefined\<close> on \<^verbatim>\<open>null\<close> and \<^verbatim>\<open>undefined\<close>.\<close>

fun get_prop_opt :: "jsval \<Rightarrow> string \<Rightarrow> js_error + jsval" where
  "get_prop_opt JNull key = Inr JUndefined"
| "get_prop_opt JUndefined key = Inr JUndefined"
| "get_prop_opt v key = get_prop v key"

fun truthy :: "jsval \<Rightarrow> bool" where
  "truthy JUndefined = False"
| "truthy JNull = False"
| "truthy (JPrim b _) = b"
| "truthy (JStr s) = (s \<noteq> [])"
| "truthy (JArr _) = True"
| "truthy (JObj _) = True"

text \<open>
  The conversion a template literal applies to an interpolated value. An object is
  converted by its \<^verbatim>\<open>toString\<close>: the one of \<^verbatim>\<open>Object.prototype\<close>, unless the object has
  an own property of that name, which in a decoded payload is never a function; then
  \<^verbatim>\<open>valueOf\<close> cannot give a primitive either and the conversion throws. An array is
  converted by \<^verbatim>\<open>join\<close>: its elements, \<^verbatim>\<open>null\<close> and \<^verbatim>\<open>undefined\<close> as the empty string,
  with commas between them.
\<close>

fun to_string :: "jsval \<Rightarrow> js_error + jsstring"
  and join :: "jsval list \<Rightarrow> js_error + jsstring" where
  "to_string JUndefined = Inr (ascii ''undefined'')"
| "to_string JNull = Inr (ascii ''null'')"
| "to_string (JPrim _ s) = Inr s"
| "to_string (JStr s) = Inr s"
| "to_string (JArr elements) = join elements"
| "to_string (JObj fields) =
     (case map_of fields (ascii ''toString'') of
        Some _ \<Rightarrow> Inl to_primitive_error
      | None \<Rightarrow> Inr (ascii ''[object Object]''))"
| "join [] = Inr []"
| "join (element # elements) =
     (case (if element = JUndefined \<or> element = JNull then Inr [] else to_string element) of
        Inl error \<Rightarrow> Inl error
      | Inr s \<Rightarrow>
         (if elements = [] then Inr s
          else (case join elements of
                  Inl error \<Rightarrow> Inl error
                | Inr t \<Rightarrow> Inr (s @ [0x2C] @ t))))"

text \<open>
  The body of a successful response, as the sequence of outcomes of \<^verbatim>\<open>reader.read()\<close>:
  a chunk and what follows it, the end of the data, or a rejection. A chunk is given by
  the text \<^verbatim>\<open>decoder.decode(value, { stream: true })\<close> returns for it. A rejected read
  includes the read that is pending when the request is aborted.
\<close>

datatype upstream =
    Data jsstring upstream
  | End
  | Fail js_error

record response =
  status :: nat
  statusText :: jsstring
  json :: "js_error + jsval"
  body :: "upstream option"

text \<open>\<^verbatim>\<open>response.ok\<close> is true for the statuses 200 to 299.\<close>

definition ok :: "response \<Rightarrow> bool" where
  "ok r = (200 \<le> status r \<and> status r \<le> 299)"

text \<open>The decimal digits of a status code, as \<^verbatim>\<open>${response.status}\<close> writes them.\<close>

fun show_nat :: "nat \<Rightarrow> jsstring" where
  "show_nat n = (if n < 10 then [0x30 + of_nat n] else show_nat (n div 10) @ [0x30 + of_nat (n mod 10)])"

declare show_nat.simps [simp del]

section \<open>The Repeater\<close>

text \<open>
  The executor pushes into a \<^verbatim>\<open>Repeater\<close>, a class of the library that
  \<^verbatim>\<open>graphql-yoga\<close> re-exports; its code is not among the sources. What is kept of it is
  what decides whether a call of \<^verbatim>\<open>push\<close> returns. No call of \<^verbatim>\<open>push\<close> is awaited, so
  a pushed value stays pending until the consumer asks for it, and a call of \<^verbatim>\<open>push\<close>
  that finds \<open>MAX_QUEUE_LENGTH\<close> values pending throws a \<^verbatim>\<open>RepeaterOverflowError\<close>. The
  consumer runs only while the executor waits at an \<^verbatim>\<open>await\<close>; how many values it asks
  for during each of them is a parameter. When it has asked for more values than were
  pushed, its requests wait and \<open>pending\<close> is negative.
\<close>

definition MAX_QUEUE_LENGTH :: int where
  "MAX_QUEUE_LENGTH = 1024"

record repeater =
  pending :: int
  awaits :: nat

type_synonym consumer = "nat \<Rightarrow> nat"

definition start :: repeater where
  "start = \<lparr>pending = 0, awaits = 0\<rparr>"

definition await :: "consumer \<Rightarrow> repeater \<Rightarrow> repeater" where
  "await c r = \<lparr>pending = pending r - int (c (awaits r)), awaits = Suc (awaits r)\<rparr>"

definition overflow_error :: js_error where
  "overflow_error =
     JsError ''RepeaterOverflowError''
       (ascii ''No more than 1024 pending calls to push are allowed on a single repeater.'')"

definition push :: "repeater \<Rightarrow> jsstring \<Rightarrow> js_error + repeater" where
  "push r m =
     (if MAX_QUEUE_LENGTH \<le> pending r then Inl overflow_error
      else Inr (r\<lparr>pending := pending r + 1\<rparr>))"

section \<open>The producer\<close>

text \<open>
  What the executor does to the outside, in order: the upstream request (with the content
  of the user message), the calls of \<^verbatim>\<open>push\<close> that returned, the call of \<^verbatim>\<open>stop\<close>, and
  the acquisition and release of the reader. The output of \<^verbatim>\<open>console.error\<close> is left
  out.
\<close>

datatype event =
    Fetch jsstring
  | Push jsstring
  | Stop
  | GetReader
  | ReleaseLock

fun pushed :: "event list \<Rightarrow> jsstring list" where
  "pushed [] = []"
| "pushed (Push m # evs) = m # pushed evs"
| "pushed (_ # evs) = pushed evs"

definition trim :: "jsstring \<Rightarrow> jsstring" where
  "trim s = rev (dropWhile js_space (rev (dropWhile js_space s)))"

definition validation_error :: jsstring where
  "validation_error =
     [0x9519, 0x8BEF, 0xFF1A, 0x6D88, 0x606F, 0x5185, 0x5BB9, 0x4E0D, 0x80FD, 0x4E3A, 0x7A7A]"

definition api_error_prefix :: jsstring where
  "api_error_prefix = [0x41, 0x50, 0x49, 0x9519, 0x8BEF, 0x3A, 0x20]"

definition service_error_prefix :: jsstring where
  "service_error_prefix = [0x670D, 0x52A1, 0x9519, 0x8BEF, 0x3A, 0x20]"

definition unknown_error :: jsstring where
  "unknown_error = [0x672A, 0x77E5, 0x9519, 0x8BEF]"

text \<open>Line 131: the value of \<^verbatim>\<open>errorData.error?.message || response.statusText\<close> as the
  template literal writes it, where \<^verbatim>\<open>errorData\<close> is \<^verbatim>\<open>{}\<close> when \<^verbatim>\<open>response.json()\<close>
  rejects.\<close>

definition error_detail :: "response \<Rightarrow> js_error + jsstring" where
  "error_detail r =
     (let errorData = (case json r of Inl _ \<Rightarrow> JObj [] | Inr v \<Rightarrow> v) in
      case get_prop errorData ''error'' of
        Inl e \<Rightarrow> Inl e
      | Inr err \<Rightarrow>
         (case get_prop_opt err ''message'' of
            Inl e \<Rightarrow> Inl e
          | Inr m \<Rightarrow> if truthy m then to_string m else Inr (statusText r)))"

definition api_error :: "response \<Rightarrow> jsstring \<Rightarrow> jsstring" where
  "api_error r detail = api_error_prefix @ show_nat (status r) @ ascii '' - '' @ detail"

definition service_error :: "js_error \<Rightarrow> jsstring" where
  "service_error error =
     service_error_prefix @
       (if error_message error \<noteq> [] then error_message error else unknown_error)"

text \<open>A run of a block of the executor: its events, and the exception that leaves it, if
  one does.\<close>

type_synonym run = "event list \<times> js_error option"

definition preceded :: "event list \<Rightarrow> run \<Rightarrow> run" where
  "preceded evs x = (evs @ fst x, snd x)"

text \<open>Lines 186 to 193, the outer \<^verbatim>\<open>catch\<close>. The exception its own \<^verbatim>\<open>push\<close> throws leaves
  the executor, and \<^verbatim>\<open>stop\<close> is not called then.\<close>

definition catch_block :: "repeater \<Rightarrow> js_error \<Rightarrow> run" where
  "catch_block r error =
     (if error_name error \<noteq> ''AbortError'' then
        (case push r (service_error error) of
           Inl thrown \<Rightarrow> ([], Some thrown)
         | Inr _ \<Rightarrow> ([Push (service_error error), Stop], None))
      else ([Stop], None))"

text \<open>Line 174, \<^verbatim>\<open>segments.forEach(segment => push({ message: segment }))\<close>: the first call
  that throws ends it.\<close>

fun push_all :: "repeater \<Rightarrow> jsstring list \<Rightarrow> event list \<times> repeater \<times> js_error option" where
  "push_all r [] = ([], r, None)"
| "push_all r (segment # segments) =
     (case push r segment of
        Inl error \<Rightarrow> ([], r, Some error)
      | Inr r' \<Rightarrow>
         (case push_all r' segments of
            (evs, r'', x) \<Rightarrow> (Push segment # evs, r'', x)))"

text \<open>Lines 142 to 175, the outer \<^verbatim>\<open>while (true)\<close>: it ends with the buffer that is left
  when the data ends, or with the exception that a read or a \<^verbatim>\<open>push\<close> throws.\<close>

fun read_loop ::
  "consumer \<Rightarrow> repeater \<Rightarrow> jsstring \<Rightarrow> upstream \<Rightarrow>
     (event list \<times> repeater \<times> (js_error + jsstring)) option" where
  "read_loop c r messageBuffer End = Some ([], await c r, Inr messageBuffer)"
| "read_loop c r messageBuffer (Fail error) = Some ([], await c r, Inl error)"
| "read_loop c r messageBuffer (Data chunk rest) =
     (case feed messageBuffer chunk of
        None \<Rightarrow> None
      | Some (segments, messageBuffer') \<Rightarrow>
         (case push_all (await c r) segments of
            (evs, r', Some error) \<Rightarrow> Some (evs, r', Inl error)
          | (evs, r', None) \<Rightarrow>
              (case read_loop c r' messageBuffer' rest of
                 None \<Rightarrow> None
               | Some (evs', r'', x) \<Rightarrow> Some (evs @ evs', r'', x))))"

text \<open>The chunks an upstream delivers, in order.\<close>

fun chunks :: "upstream \<Rightarrow> jsstring list" where
  "chunks (Data chunk rest) = chunk # chunks rest"
| "chunks End = []"
| "chunks (Fail _) = []"

text \<open>The buffer and the segments of lines 142 to 171 over successive chunks, before any
  segment is handed to \<^verbatim>\<open>push\<close>: all the segments the scan returns, and the buffer that is
  left after the last chunk.\<close>

fun feed_all :: "jsstring \<Rightarrow> jsstring list \<Rightarrow> (jsstring list \<times> jsstring) option" where
  "feed_all messageBuffer [] = Some ([], messageBuffer)"
| "feed_all messageBuffer (chunk # rest) =
     (case feed messageBuffer chunk of
        None \<Rightarrow> None
      | Some (segments, messageBuffer') \<Rightarrow>
         (case feed_all messageBuffer' rest of
            None \<Rightarrow> None
          | Some (later, left) \<Rightarrow> Some (segments @ later, left)))"

text \<open>Lines 141 to 184: the loop, the push of what is left, and the \<^verbatim>\<open>finally\<close> block,
  which runs after a normal end as after an exception and lets the exception pass.\<close>

definition stream_body ::
  "consumer \<Rightarrow> repeater \<Rightarrow> upstream \<Rightarrow> (event list \<times> repeater \<times> js_error option) option" where
  "stream_body c r up =
     (case read_loop c r [] up of
        None \<Rightarrow> None
      | Some (evs, r', Inl error) \<Rightarrow> Some (evs @ [ReleaseLock], r', Some error)
      | Some (evs, r', Inr messageBuffer) \<Rightarrow>
          if messageBuffer \<noteq> [] then
            (case push r' messageBuffer of
               Inl error \<Rightarrow> Some (evs @ [ReleaseLock], r', Some error)
             | Inr r'' \<Rightarrow> Some (evs @ [Push messageBuffer, ReleaseLock], r'', None))
          else Some (evs @ [ReleaseLock], r', None))"

text \<open>Lines 89 to 194, the executor: \<open>c\<close> is the consumer of the \<^verbatim>\<open>Repeater\<close>, \<open>message\<close>
  is \<^verbatim>\<open>input.message\<close> and \<open>fetch\<close> is what the request settles to. The executor waits
  for the request, for \<^verbatim>\<open>response.json()\<close> and for each read.\<close>

definition subscribe ::
  "consumer \<Rightarrow> jsstring option \<Rightarrow> js_error + response \<Rightarrow> run option" where
  "subscribe c message fetch =
     (case (case message of None \<Rightarrow> None | Some m \<Rightarrow> if trim m = [] then None else Some m) of
        None \<Rightarrow>
          (case push start validation_error of
             Inl error \<Rightarrow> Some (catch_block start error)
           | Inr _ \<Rightarrow> Some ([Push validation_error, Stop], None))
      | Some m \<Rightarrow>
         (let r = await c start in
          case fetch of
            Inl error \<Rightarrow> Some (preceded [Fetch m] (catch_block r error))
          | Inr response \<Rightarrow>
              if \<not> ok response then
                (let r' = await c r in
                 case error_detail response of
                   Inl error \<Rightarrow> Some (preceded [Fetch m] (catch_block r' error))
                 | Inr detail \<Rightarrow>
                    (case push r' (api_error response detail) of
                       Inl error \<Rightarrow> Some (preceded [Fetch m] (catch_block r' error))
                     | Inr _ \<Rightarrow>
                         Some ([Fetch m, Push (api_error response detail), Stop], None)))
              else
                (case body response of
                   None \<Rightarrow>
                     Some (preceded [Fetch m]
                             (catch_block r (null_property_error ''getReader'')))
                 | Some up \<Rightarrow>
                    (case stream_body c r up of
                       None \<Rightarrow> None
                     | Some (evs, r', Some error) \<Rightarrow>
                         Some (preceded (Fetch m # GetReader # evs) (catch_block r' error))
                     | Some (evs, r', None) \<Rightarrow> Some (Fetch m # GetReader # evs, None)))))"

section \<open>Properties of the patterns and of the scan\<close>

lemma cjkMatch_Some:
  "cjkMatch buf = Some (i, t) \<Longrightarrow>
     i < length buf \<and> t = [buf ! i] \<and> cjk_class (buf ! i) \<and> (\<forall>k<i. \<not> cjk_class (buf ! k))"
proof (induction buf arbitrary: i t)
  case Nil
  then show ?case by simp
next
  case (Cons c cs)
  show ?case
  proof (cases "cjk_class c")
    case True
    with Cons.prems show ?thesis by simp
  next
    case False
    with Cons.prems obtain j where j: "cjkMatch cs = Some (j, t)" "i = Suc j"
      by (auto simp: shift_match_def)
    from Cons.IH[OF j(1)] False j(2) show ?thesis
      by (auto simp: nth_Cons split: nat.splits)
  qed
qed

lemma cjkMatch_None: "cjkMatch buf = None \<longleftrightarrow> (\<forall>c\<in>set buf. \<not> cjk_class c)"
  by (induction buf) (auto simp: shift_match_def)

lemma en_alt1_Some:
  "en_alt1 s = Some t \<Longrightarrow> \<exists>c d. t = [c, d] \<and> take 2 s = t \<and> en_class c \<and> js_space d"
  by (cases s rule: en_alt1.cases) (auto split: if_splits)

lemma enMatch_Some:
  "enMatch buf = Some (i, t) \<Longrightarrow>
     i < length buf \<and> (en_alt1 (drop i buf) = Some t \<or> en_alt2 (drop i buf) = Some t)"
proof (induction buf arbitrary: i t)
  case Nil
  then show ?case by simp
next
  case (Cons c cs)
  show ?case
  proof (cases "en_alt1 (c # cs)")
    case (Some u)
    with Cons.prems show ?thesis by simp
  next
    case None
    note n1 = this
    show ?thesis
    proof (cases "en_alt2 (c # cs)")
      case (Some u)
      with n1 Cons.prems show ?thesis by simp
    next
      case None
      with n1 Cons.prems obtain j where j: "enMatch cs = Some (j, t)" "i = Suc j"
        by (auto simp: shift_match_def)
      from Cons.IH[OF j(1)] j(2) show ?thesis by simp
    qed
  qed
qed

lemma en_alt2_no_LF:
  assumes "LF \<notin> set s"
  shows "en_alt2 (drop i s) = None"
proof (cases "drop i s")
  case Nil
  then show ?thesis by simp
next
  case (Cons c cs)
  then have "c \<in> set (drop i s)" by simp
  then have "c \<in> set s" by (rule in_set_dropD)
  with assms have "c \<noteq> LF" by auto
  with Cons show ?thesis by simp
qed

lemma cjk_class_LF: "cjk_class LF"
  by (simp add: cjk_class_def)

lemma take_Suc_snoc_boundary:
  "i < length buf \<Longrightarrow> cjk_class (buf ! i) \<Longrightarrow> ends_at_boundary (take (Suc i) buf)"
  by (simp add: ends_at_boundary_def take_Suc_conv_app_nth)

lemma take_two_boundary:
  assumes "take 2 (drop i buf) = [c, d]" "en_class c" "js_space d"
  shows "ends_at_boundary (take (i + 2) buf)"
proof -
  have "take (i + 2) buf = take i buf @ take 2 (drop i buf)"
    by (rule take_add)
  with assms show ?thesis
    by (simp add: ends_at_boundary_def)
qed

lemma break_point_found:
  assumes "break_point buf = (p, sz)" "p \<noteq> - 1"
  shows "\<exists>n. p + sz = int n \<and> 1 \<le> n \<and> n \<le> length buf \<and> ends_at_boundary (take n buf)"
proof (cases "cjkMatch buf")
  case (Some m)
  obtain i t where m: "m = (i, t)" by (cases m)
  from cjkMatch_Some[of buf i t] Some m
  have i: "i < length buf" "cjk_class (buf ! i)" by auto
  from assms Some m have "p + sz = int (Suc i)" by (simp add: break_point_def)
  with i take_Suc_snoc_boundary[OF i] show ?thesis
    by (intro exI[of _ "Suc i"]) simp
next
  case None
  note noc = this
  show ?thesis
  proof (cases "enMatch buf")
    case None
    with noc assms show ?thesis by (simp add: break_point_def)
  next
    case (Some m)
    obtain i t where m: "m = (i, t)" by (cases m)
    from noc have "LF \<notin> set buf"
      using cjk_class_LF by (auto simp: cjkMatch_None)
    then have "en_alt2 (drop i buf) = None" by (rule en_alt2_no_LF)
    with enMatch_Some[of buf i t] Some m
    have i: "i < length buf" "en_alt1 (drop i buf) = Some t" by auto
    from en_alt1_Some[OF i(2)] obtain c d where
      t: "t = [c, d]" "take 2 (drop i buf) = t" "en_class c" "js_space d" by blast
    from t(1,2) have "length (take 2 (drop i buf)) = 2" by simp
    then have len: "i + 2 \<le> length buf" by simp
    from assms noc Some m t(1) have "p + sz = int (i + 2)" by (simp add: break_point_def)
    with len take_two_boundary[of i buf c d] t show ?thesis
      by (intro exI[of _ "i + 2"]) simp
  qed
qed

lemma break_point_none: "break_point buf = (p, sz) \<Longrightarrow> p = - 1 \<Longrightarrow> sz = 1"
  by (auto simp: break_point_def split: option.splits prod.splits)

lemma substring2_take: "substring2 s 0 (int n) = take n s"
  by (simp add: substring2_def clamp_index_def Let_def min_def)

lemma substring1_drop: "substring1 s (int n) = drop n s"
  by (simp add: substring1_def clamp_index_def min_def)

lemma ends_at_boundary_nonempty: "ends_at_boundary s \<Longrightarrow> s \<noteq> []"
  by (auto simp: ends_at_boundary_def)

lemma segment_loop_spec:
  "\<exists>new rest. segment_loop buf acc = Some (acc @ new, rest) \<and> concat new @ rest = buf \<and>
      [] \<notin> set new \<and> list_all ends_at_boundary new \<and> length new \<le> length buf \<and>
      break_point rest = (- 1, 1)"
proof (induction "length buf" arbitrary: buf acc rule: less_induct)
  case less
  obtain p sz where bp: "break_point buf = (p, sz)" by (cases "break_point buf")
  show ?case
  proof (cases "p = - 1")
    case True
    with bp break_point_none[OF bp] have "segment_loop buf acc = Some (acc @ [], buf)"
      by (subst segment_loop.simps) simp
    with bp True break_point_none[OF bp] show ?thesis
      by (intro exI[of _ "[]"] exI[of _ buf]) simp
  next
    case False
    from break_point_found[OF bp False] obtain n where
      n: "p + sz = int n" "1 \<le> n" "n \<le> length buf" "ends_at_boundary (take n buf)" by blast
    have step: "segment_loop buf acc = segment_loop (drop n buf) (acc @ [take n buf])"
      using bp False n(1) by (subst segment_loop.simps) (simp add: substring1_drop substring2_take)
    from n have "length (drop n buf) < length buf" by simp
    from less[OF this, of "acc @ [take n buf]"] obtain new rest where
      r: "segment_loop (drop n buf) (acc @ [take n buf]) = Some ((acc @ [take n buf]) @ new, rest)"
         "concat new @ rest = drop n buf" "[] \<notin> set new" "list_all ends_at_boundary new"
         "length new \<le> length (drop n buf)" "break_point rest = (- 1, 1)"
      by blast
    from n(4) have ne: "take n buf \<noteq> []" by (rule ends_at_boundary_nonempty)
    have "concat (take n buf # new) @ rest = buf"
      using r(2) by simp
    moreover have "length (take n buf # new) \<le> length buf"
      using r(5) n(2,3) by simp
    ultimately show ?thesis
      using step r(1,3,4,6) n(4) ne
      by (intro exI[of _ "take n buf # new"] exI[of _ rest]) simp
  qed
qed

lemma enMatch_least:
  "enMatch buf = Some (i, t) \<Longrightarrow> k < i \<Longrightarrow>
     en_alt1 (drop k buf) = None \<and> en_alt2 (drop k buf) = None"
proof (induction buf arbitrary: i t k)
  case Nil
  then show ?case by simp
next
  case (Cons c cs)
  from Cons.prems have n: "en_alt1 (c # cs) = None" "en_alt2 (c # cs) = None"
    by (auto split: option.splits)
  with Cons.prems obtain j where j: "enMatch cs = Some (j, t)" "i = Suc j"
    by (auto simp: shift_match_def)
  show ?case
  proof (cases k)
    case 0
    with n show ?thesis by simp
  next
    case (Suc k')
    with Cons.prems j have "k' < j" by simp
    from Cons.IH[OF j(1) this] Suc show ?thesis by simp
  qed
qed

lemma feed_spec:
  "\<exists>segs rest. feed buf chunk = Some (segs, rest) \<and> concat segs @ rest = buf @ chunk \<and>
      [] \<notin> set segs \<and> list_all ends_at_boundary segs"
  using segment_loop_spec[of "buf @ chunk" "[]"] by (auto simp: feed_def)

section \<open>The segmenter\<close>

text \<open>
  C6. The single fragment \<^verbatim>\<open>"Hello. World"\<close>, fed with an empty buffer, gives the one
  segment \<^verbatim>\<open>"Hello. "\<close>, whose trailing space belongs to it, and leaves \<^verbatim>\<open>"World"\<close> in
  the buffer.
\<close>

theorem feed_hello_world:
  "feed [] (ascii ''Hello. World'') = Some ([ascii ''Hello. ''], ascii ''World'')"
  by code_simp

text \<open>
  C9. The boundary scan ends for every buffer. Whenever a break position is found, the
  prefix cut off has at least one code unit, so the buffer kept is strictly shorter; the
  loop returns, it has added at most as many segments as the buffer has code units, and
  it leaves when the buffer that is left, empty or not, holds no boundary.
\<close>

theorem segment_loop_terminates:
  "(\<forall>breakPos breakSize. break_point buf = (breakPos, breakSize) \<and> breakPos \<noteq> - 1 \<longrightarrow>
      1 \<le> breakPos + breakSize \<and>
      length (substring1 buf (breakPos + breakSize)) < length buf) \<and>
   (\<exists>segments rest. segment_loop buf acc = Some (segments, rest) \<and>
      length segments \<le> length acc + length buf \<and> break_point rest = (- 1, 1))"
proof (intro conjI allI impI)
  fix breakPos breakSize
  assume a: "break_point buf = (breakPos, breakSize) \<and> breakPos \<noteq> - 1"
  then obtain n where n: "breakPos + breakSize = int n" "1 \<le> n" "n \<le> length buf"
    using break_point_found[of buf breakPos breakSize] by blast
  then show "1 \<le> breakPos + breakSize" by simp
  from n show "length (substring1 buf (breakPos + breakSize)) < length buf"
    by (simp add: substring1_drop)
next
  from segment_loop_spec[of buf acc] obtain new rest where
    "segment_loop buf acc = Some (acc @ new, rest)" "length new \<le> length buf"
    "break_point rest = (- 1, 1)" by blast
  then show "\<exists>segments rest. segment_loop buf acc = Some (segments, rest) \<and>
      length segments \<le> length acc + length buf \<and> break_point rest = (- 1, 1)"
    by (intro exI[of _ "acc @ new"] exI[of _ rest]) simp
qed

theorem segment_loop_terminates_witness:
  "break_point (ascii ''Hello. World'') = (5, 2) \<and> (5::int) \<noteq> - 1 \<and>
   1 \<le> (5::int) + 2 \<and>
   length (substring1 (ascii ''Hello. World'') (5 + 2)) < length (ascii ''Hello. World'') \<and>
   (\<exists>segments rest. segment_loop (ascii ''Hello. World'') [] = Some (segments, rest) \<and>
      length segments \<le> length ([] :: jsstring list) + length (ascii ''Hello. World'') \<and>
      break_point rest = (- 1, 1))"
proof -
  have bp: "break_point (ascii ''Hello. World'') = (5, 2)" by code_simp
  from segment_loop_terminates[of "ascii ''Hello. World''" "[]"] bp show ?thesis
    by simp
qed

text \<open>
  C1, as the code has it. The first pattern is consulted first and wins wherever it
  matches: when the buffer holds one of its marks, the cut is made right after the
  earliest of them, with break size 1, whatever the second pattern finds and where. Only
  in a buffer without such a mark is the earliest match of the second pattern taken, and
  there it is a mark of \<^verbatim>\<open>[.?!]\<close> with the whitespace after it.
\<close>

theorem cjk_pattern_first:
  "(cjkMatch buf = Some (j, u) \<longrightarrow>
      break_point buf = (int j, 1) \<and> j < length buf \<and> cjk_class (buf ! j) \<and>
      (\<forall>k<j. \<not> cjk_class (buf ! k))) \<and>
   (cjkMatch buf = None \<and> enMatch buf = Some (i, t) \<longrightarrow>
      break_point buf = (int i, int (length t)) \<and> en_alt1 (drop i buf) = Some t \<and>
      (\<forall>k<i. en_alt1 (drop k buf) = None))"
proof (intro conjI impI)
  assume c: "cjkMatch buf = Some (j, u)"
  then show "break_point buf = (int j, 1)" by (simp add: break_point_def)
  from cjkMatch_Some[OF c]
  show "j < length buf" "cjk_class (buf ! j)" "\<forall>k<j. \<not> cjk_class (buf ! k)" by simp_all
next
  assume e: "cjkMatch buf = None \<and> enMatch buf = Some (i, t)"
  then show "break_point buf = (int i, int (length t))" by (simp add: break_point_def)
  from e have "LF \<notin> set buf" using cjk_class_LF by (auto simp: cjkMatch_None)
  then have "en_alt2 (drop i buf) = None" by (rule en_alt2_no_LF)
  with enMatch_Some[of buf i t] e show "en_alt1 (drop i buf) = Some t" by auto
  from e enMatch_least[of buf i t] show "\<forall>k<i. en_alt1 (drop k buf) = None" by blast
qed

theorem cjk_pattern_first_witness:
  "cjkMatch [0x61, 0x2E, 0x20, 0x62, 0x3002] = Some (4, [0x3002]) \<and>
   break_point [0x61, 0x2E, 0x20, 0x62, 0x3002] = (4, 1) \<and>
   cjkMatch (ascii ''Hello. World'') = None \<and>
   enMatch (ascii ''Hello. World'') = Some (5, ascii ''. '') \<and>
   break_point (ascii ''Hello. World'') = (5, 2)"
proof -
  have c: "cjkMatch [0x61, 0x2E, 0x20, 0x62, 0x3002] = Some (4, [0x3002])" by code_simp
  have e: "cjkMatch (ascii ''Hello. World'') = None \<and>
    enMatch (ascii ''Hello. World'') = Some (5, ascii ''. '')" by code_simp
  have l: "int (length (ascii ''. '')) = 2" by (simp add: ascii_def)
  from cjk_pattern_first[of "[0x61, 0x2E, 0x20, 0x62, 0x3002]" 4 "[0x3002]" 0 "[]"] c
  have "break_point [0x61, 0x2E, 0x20, 0x62, 0x3002] = (4, 1)" by simp
  moreover from cjk_pattern_first[of "ascii ''Hello. World''" 0 "[]" 5 "ascii ''. ''"] e l
  have "break_point (ascii ''Hello. World'') = (5, 2)" by simp
  ultimately show ?thesis using c e by simp
qed

text \<open>
  C1, as stated, fails on the buffer \<^verbatim>\<open>"a. b\u3002"\<close>: the second pattern matches at
  index 1, before the match of the first pattern at index 4, and the cut is not made at
  index 1. The whole buffer becomes one segment.
\<close>

theorem latin_before_cjk_counterexample:
  "enMatch [0x61, 0x2E, 0x20, 0x62, 0x3002] = Some (1, [0x2E, 0x20]) \<and>
   cjkMatch [0x61, 0x2E, 0x20, 0x62, 0x3002] = Some (4, [0x3002]) \<and>
   break_point [0x61, 0x2E, 0x20, 0x62, 0x3002] = (4, 1) \<and>
   break_point [0x61, 0x2E, 0x20, 0x62, 0x3002] \<noteq> (1, 2) \<and>
   feed [] [0x61, 0x2E, 0x20, 0x62, 0x3002] = Some ([[0x61, 0x2E, 0x20, 0x62, 0x3002]], [])"
  by code_simp

text \<open>
  C10. Every segment the scan cuts off ends at a boundary: with a mark of the first
  pattern (a line feed among them), or with a mark of \<^verbatim>\<open>[.?!]\<close> and the whitespace
  after it. The alternative \<^verbatim>\<open>\n\<close> of the second pattern never decides a cut: when the
  second pattern is consulted the buffer holds no line feed, so its match is the
  two-unit one.
\<close>

theorem segments_end_at_boundary:
  "(\<exists>segments rest. feed buf chunk = Some (segments, rest) \<and>
      list_all ends_at_boundary segments) \<and>
   (\<forall>i t. cjkMatch b = None \<and> enMatch b = Some (i, t) \<longrightarrow>
      en_alt1 (drop i b) = Some t \<and> t \<noteq> [LF])"
proof (intro conjI allI impI)
  from feed_spec[of buf chunk]
  show "\<exists>segments rest. feed buf chunk = Some (segments, rest) \<and>
      list_all ends_at_boundary segments"
    by blast
next
  fix i t
  assume e: "cjkMatch b = None \<and> enMatch b = Some (i, t)"
  then have "LF \<notin> set b" using cjk_class_LF by (auto simp: cjkMatch_None)
  then have "en_alt2 (drop i b) = None" by (rule en_alt2_no_LF)
  with enMatch_Some[of b i t] e show a: "en_alt1 (drop i b) = Some t" by auto
  from en_alt1_Some[OF a] show "t \<noteq> [LF]" by auto
qed

theorem segments_end_at_boundary_witness:
  "(\<exists>segments rest. feed [] (ascii ''Hello. World'') = Some (segments, rest) \<and>
      list_all ends_at_boundary segments) \<and>
   cjkMatch (ascii ''Hello. World'') = None \<and>
   enMatch (ascii ''Hello. World'') = Some (5, ascii ''. '') \<and>
   en_alt1 (drop 5 (ascii ''Hello. World'')) = Some (ascii ''. '') \<and> ascii ''. '' \<noteq> [LF]"
proof -
  have e: "cjkMatch (ascii ''Hello. World'') = None \<and>
    enMatch (ascii ''Hello. World'') = Some (5, ascii ''. '')" by code_simp
  from segments_end_at_boundary[of "[]" "ascii ''Hello. World''" "ascii ''Hello. World''"] e
  show ?thesis by blast
qed

section \<open>The read loop\<close>

lemma push_accepted:
  "pending r < MAX_QUEUE_LENGTH \<Longrightarrow> push r m = Inr (r\<lparr>pending := pending r + 1\<rparr>)"
  by (simp add: push_def)

lemma push_refused: "MAX_QUEUE_LENGTH \<le> pending r \<Longrightarrow> push r m = Inl overflow_error"
  by (simp add: push_def)

lemma pushed_append: "pushed (xs @ ys) = pushed xs @ pushed ys"
  by (induction xs rule: pushed.induct) simp_all

lemma pushed_map_Push: "pushed (map Push segs) = segs"
  by (induction segs) simp_all

lemma count_list_map_Push:
  "count_list (map Push segs) ReleaseLock = 0" "count_list (map Push segs) GetReader = 0"
  by (induction segs) simp_all

lemma push_all_spec:
  "\<exists>k r' x. push_all r segs = (map Push (take k segs), r', x) \<and> k \<le> length segs \<and>
      (x = None \<longrightarrow> k = length segs)"
proof (induction segs arbitrary: r)
  case Nil
  show ?case by simp
next
  case (Cons s segs)
  show ?case
  proof (cases "push r s")
    case (Inl e)
    then have "push_all r (s # segs) = (map Push (take 0 (s # segs)), r, Some e)" by simp
    then show ?thesis by (intro exI[of _ 0]) auto
  next
    case (Inr r1)
    from Cons.IH[of r1] obtain k r' x where
      k: "push_all r1 segs = (map Push (take k segs), r', x)" "k \<le> length segs"
         "x = None \<longrightarrow> k = length segs" by blast
    with Inr have "push_all r (s # segs) = (map Push (take (Suc k) (s # segs)), r', x)"
      by simp
    with k(2,3) show ?thesis by (intro exI[of _ "Suc k"]) auto
  qed
qed

lemma feed_all_spec:
  "\<exists>segs rest. feed_all buf frags = Some (segs, rest) \<and>
      concat segs @ rest = buf @ concat frags \<and>
      [] \<notin> set segs \<and> list_all ends_at_boundary segs"
proof (induction frags arbitrary: buf)
  case Nil
  show ?case by simp
next
  case (Cons chunk frags)
  from feed_spec[of buf chunk] obtain s1 b1 where
    f: "feed buf chunk = Some (s1, b1)" "concat s1 @ b1 = buf @ chunk"
       "[] \<notin> set s1" "list_all ends_at_boundary s1" by blast
  from Cons.IH[of b1] obtain s2 rest where
    r: "feed_all b1 frags = Some (s2, rest)" "concat s2 @ rest = b1 @ concat frags"
       "[] \<notin> set s2" "list_all ends_at_boundary s2" by blast
  have "concat (s1 @ s2) @ rest = concat s1 @ b1 @ concat frags"
    using r(2) by simp
  also have "\<dots> = (buf @ chunk) @ concat frags"
    using f(2) by simp
  finally have c: "concat (s1 @ s2) @ rest = buf @ concat (chunk # frags)"
    by simp
  show ?case
    using f r c by (intro exI[of _ "s1 @ s2"] exI[of _ rest]) simp
qed

lemma read_loop_spec:
  "\<exists>segs rest k r' x. feed_all buf (chunks up) = Some (segs, rest) \<and>
      read_loop c r buf up = Some (map Push (take k segs), r', x) \<and> k \<le> length segs \<and>
      (\<forall>b. x = Inr b \<longrightarrow> b = rest \<and> k = length segs)"
proof (induction up arbitrary: r buf)
  case End
  show ?case by (intro exI[of _ "[]"] exI[of _ buf] exI[of _ 0]) simp
next
  case (Fail e)
  show ?case by (intro exI[of _ "[]"] exI[of _ buf] exI[of _ 0]) simp
next
  case (Data chunk up)
  from feed_spec[of buf chunk] obtain s1 b1 where
    f: "feed buf chunk = Some (s1, b1)" by blast
  from push_all_spec[of "await c r" s1] obtain k1 r1 x1 where
    p: "push_all (await c r) s1 = (map Push (take k1 s1), r1, x1)" "k1 \<le> length s1"
       "x1 = None \<longrightarrow> k1 = length s1" by blast
  from Data.IH[of b1 r1] obtain s2 rest k2 r2 x2 where
    i: "feed_all b1 (chunks up) = Some (s2, rest)"
       "read_loop c r1 b1 up = Some (map Push (take k2 s2), r2, x2)" "k2 \<le> length s2"
       "\<forall>b. x2 = Inr b \<longrightarrow> b = rest \<and> k2 = length s2" by blast
  from f i(1) have fa: "feed_all buf (chunks (Data chunk up)) = Some (s1 @ s2, rest)"
    by simp
  show ?case
  proof (cases x1)
    case (Some e)
    with f p(1) have "read_loop c r buf (Data chunk up) = Some (map Push (take k1 s1), r1, Inl e)"
      by simp
    moreover from p(2) have "take k1 (s1 @ s2) = take k1 s1" by simp
    ultimately show ?thesis
      using fa p(2)
      by (intro exI[of _ "s1 @ s2"] exI[of _ rest] exI[of _ k1] exI[of _ r1] exI[of _ "Inl e"])
         simp
  next
    case None
    with p(3) have k1: "k1 = length s1" by simp
    from None f p(1) i(2) k1 have
      "read_loop c r buf (Data chunk up) = Some (map Push s1 @ map Push (take k2 s2), r2, x2)"
      by simp
    moreover have "take (length s1 + k2) (s1 @ s2) = s1 @ take k2 s2" by simp
    ultimately have
      "read_loop c r buf (Data chunk up) = Some (map Push (take (length s1 + k2) (s1 @ s2)), r2, x2)"
      by simp
    with fa i(3,4) show ?thesis
      by (intro exI[of _ "s1 @ s2"] exI[of _ rest] exI[of _ "length s1 + k2"] exI[of _ r2]
            exI[of _ x2]) simp
  qed
qed

lemma chunks_script: "chunks (foldr Data frags End) = frags"
  by (induction frags) simp_all

lemma stream_body_spec:
  "\<exists>segs rest ms r' x. feed_all [] (chunks up) = Some (segs, rest) \<and>
      stream_body c r up = Some (map Push ms @ [ReleaseLock], r', x) \<and>
      prefix ms (segs @ (if rest \<noteq> [] then [rest] else [])) \<and>
      (x = None \<longrightarrow> ms = segs @ (if rest \<noteq> [] then [rest] else []))"
proof -
  from read_loop_spec[of "[]" up c r] obtain segs rest k r1 x1 where
    s: "feed_all [] (chunks up) = Some (segs, rest)"
       "read_loop c r [] up = Some (map Push (take k segs), r1, x1)" "k \<le> length segs"
       "\<forall>b. x1 = Inr b \<longrightarrow> b = rest \<and> k = length segs" by blast
  let ?all = "segs @ (if rest \<noteq> [] then [rest] else [])"
  have pre: "prefix (take k segs) ?all"
    by (rule prefix_order.trans[OF take_is_prefix]) simp
  show ?thesis
  proof (cases x1)
    case (Inl e)
    with s(2) have "stream_body c r up = Some (map Push (take k segs) @ [ReleaseLock], r1, Some e)"
      by (simp add: stream_body_def)
    with s(1) pre show ?thesis
      by (intro exI[of _ segs] exI[of _ rest] exI[of _ "take k segs"] exI[of _ r1]
            exI[of _ "Some e"]) simp
  next
    case (Inr b)
    with s(4) have b: "b = rest" "take k segs = segs" by simp_all
    show ?thesis
    proof (cases "rest = []")
      case True
      with Inr b s(2) have "stream_body c r up = Some (map Push segs @ [ReleaseLock], r1, None)"
        by (simp add: stream_body_def)
      with s(1) True show ?thesis
        by (intro exI[of _ segs] exI[of _ rest] exI[of _ segs] exI[of _ r1] exI[of _ None])
           simp
    next
      case False
      show ?thesis
      proof (cases "push r1 rest")
        case (Inl e)
        with Inr b s(2) False have
          "stream_body c r up = Some (map Push segs @ [ReleaseLock], r1, Some e)"
          by (simp add: stream_body_def)
        with s(1) show ?thesis
          by (intro exI[of _ segs] exI[of _ rest] exI[of _ segs] exI[of _ r1]
                exI[of _ "Some e"]) simp
      next
        case (Inr r2)
        with \<open>x1 = Inr b\<close> b s(2) False have
          "stream_body c r up = Some (map Push (segs @ [rest]) @ [ReleaseLock], r2, None)"
          by (simp add: stream_body_def)
        with s(1) False show ?thesis
          by (intro exI[of _ segs] exI[of _ rest] exI[of _ "segs @ [rest]"] exI[of _ r2]
                exI[of _ None]) simp
      qed
    qed
  qed
qed

lemma prefix_concat: "prefix xs ys \<Longrightarrow> prefix (concat xs) (concat ys)"
  by (auto simp: prefix_def)

lemma stream_body_pushes:
  "\<exists>evs r' x. stream_body c r up = Some (evs, r', x) \<and>
      count_list evs ReleaseLock = 1 \<and> count_list evs GetReader = 0 \<and>
      last evs = ReleaseLock \<and> [] \<notin> set (pushed evs) \<and>
      prefix (concat (pushed evs)) (concat (chunks up)) \<and>
      (x = None \<longrightarrow> concat (pushed evs) = concat (chunks up))"
proof -
  from stream_body_spec[of up c r] obtain segs rest ms r' x where
    s: "feed_all [] (chunks up) = Some (segs, rest)"
       "stream_body c r up = Some (map Push ms @ [ReleaseLock], r', x)"
       "prefix ms (segs @ (if rest \<noteq> [] then [rest] else []))"
       "x = None \<longrightarrow> ms = segs @ (if rest \<noteq> [] then [rest] else [])" by blast
  from feed_all_spec[of "[]" "chunks up"] s(1) have
    f: "concat segs @ rest = concat (chunks up)" "[] \<notin> set segs" by simp_all
  let ?all = "segs @ (if rest \<noteq> [] then [rest] else [])"
  have call: "concat ?all = concat (chunks up)" using f(1) by (cases "rest = []") simp_all
  have "[] \<notin> set ?all" using f(2) by simp
  moreover from s(3) have "set ms \<subseteq> set ?all" by (rule set_mono_prefix)
  ultimately have ne: "[] \<notin> set ms" by blast
  from prefix_concat[OF s(3)] call have pc: "prefix (concat ms) (concat (chunks up))"
    by simp
  from s(4) call have eq: "x = None \<longrightarrow> concat ms = concat (chunks up)" by auto
  define evs where "evs = map Push ms @ [ReleaseLock]"
  have p: "pushed evs = ms"
    by (simp add: evs_def pushed_append pushed_map_Push)
  have cr: "count_list evs ReleaseLock = 1" "count_list evs GetReader = 0"
    "last evs = ReleaseLock"
    by (simp_all add: evs_def count_list_map_Push)
  from s(2) have "stream_body c r up = Some (evs, r', x)" by (simp add: evs_def)
  with ne pc eq cr p show ?thesis
    by (intro exI[of _ evs] exI[of _ r'] exI[of _ x]) simp
qed

text \<open>
  C2. However a text is split into fragments, the segments the scan returns over the
  successive fragments, followed by the buffer that is left for the final flush,
  concatenate to the text: nothing is lost, repeated or moved. Of these the read loop and
  the flush push a prefix, for every consumer, and all of them whenever the block ends
  without an exception.
\<close>

theorem no_text_lost:
  "(\<exists>segments rest. feed_all [] frags = Some (segments, rest) \<and>
      concat segments @ rest = concat frags) \<and>
   (\<exists>evs r' x. stream_body c r (foldr Data frags End) = Some (evs, r', x) \<and>
      prefix (concat (pushed evs)) (concat frags) \<and>
      (x = None \<longrightarrow> concat (pushed evs) = concat frags))"
proof
  from feed_all_spec[of "[]" frags]
  show "\<exists>segments rest. feed_all [] frags = Some (segments, rest) \<and>
      concat segments @ rest = concat frags"
    by auto
next
  from stream_body_pushes[of c r "foldr Data frags End"]
  show "\<exists>evs r' x. stream_body c r (foldr Data frags End) = Some (evs, r', x) \<and>
      prefix (concat (pushed evs)) (concat frags) \<and>
      (x = None \<longrightarrow> concat (pushed evs) = concat frags)"
    unfolding chunks_script by blast
qed

theorem no_text_lost_witness:
  "(\<exists>segments rest. feed_all [] [ascii ''Hello. Wor'', ascii ''ld! bye''] = Some (segments, rest) \<and>
      concat segments @ rest = ascii ''Hello. World! bye'') \<and>
   (\<exists>evs r'. stream_body (\<lambda>k. 0) start (Data (ascii ''Hello. Wor'') (Data (ascii ''ld! bye'') End)) =
        Some (evs, r', None) \<and>
      concat (pushed evs) = ascii ''Hello. World! bye'')"
proof -
  define F where "F = [ascii ''Hello. Wor'', ascii ''ld! bye'']"
  define U where "U = Data (ascii ''Hello. Wor'') (Data (ascii ''ld! bye'') End)"
  have c: "concat F = ascii ''Hello. World! bye''"
    by (simp add: F_def ascii_def)
  have u: "foldr Data F End = U"
    by (simp add: F_def U_def)
  have n: "snd (snd (the (stream_body (\<lambda>k. 0) start U))) = None"
    unfolding U_def by code_simp
  from no_text_lost[of F "\<lambda>k. 0" start] obtain segments rest evs r' x where
    a: "feed_all [] F = Some (segments, rest)" "concat segments @ rest = concat F"
       "stream_body (\<lambda>k. 0) start (foldr Data F End) = Some (evs, r', x)"
       "x = None \<longrightarrow> concat (pushed evs) = concat F" by blast
  from a(3) n u have "x = None" by simp
  with a c u have
    "feed_all [] F = Some (segments, rest) \<and> concat segments @ rest = ascii ''Hello. World! bye''"
    "stream_body (\<lambda>k. 0) start U = Some (evs, r', None) \<and>
       concat (pushed evs) = ascii ''Hello. World! bye''"
    by simp_all
  then show ?thesis unfolding F_def U_def by blast
qed

text \<open>
  C8. No segment is the empty string: the scan never cuts off an empty prefix, and no
  message pushed by the read loop or by the final flush is empty, whatever the upstream
  delivers and whatever the consumer does.
\<close>

theorem segments_never_empty:
  "(\<exists>segments rest. feed buf chunk = Some (segments, rest) \<and> [] \<notin> set segments) \<and>
   (\<exists>evs r' x. stream_body c r up = Some (evs, r', x) \<and> [] \<notin> set (pushed evs))"
proof
  from feed_spec[of buf chunk]
  show "\<exists>segments rest. feed buf chunk = Some (segments, rest) \<and> [] \<notin> set segments"
    by blast
next
  from stream_body_pushes[of c r up]
  show "\<exists>evs r' x. stream_body c r up = Some (evs, r', x) \<and> [] \<notin> set (pushed evs)"
    by blast
qed

section \<open>The runs of the producer\<close>

lemma pending_after_awaits:
  "pending (await c start) < MAX_QUEUE_LENGTH"
  "pending (await c (await c start)) < MAX_QUEUE_LENGTH"
  by (simp_all add: await_def start_def MAX_QUEUE_LENGTH_def)

lemma push_at_start: "push start m = Inr (start\<lparr>pending := 1\<rparr>)"
  by (simp add: push_def start_def MAX_QUEUE_LENGTH_def)

lemma catch_block_abort: "error_name e = ''AbortError'' \<Longrightarrow> catch_block r e = ([Stop], None)"
  by (simp add: catch_block_def)

lemma catch_block_accepted:
  "pending r < MAX_QUEUE_LENGTH \<Longrightarrow>
     catch_block r e =
       ((if error_name e = ''AbortError'' then [] else [Push (service_error e)]) @ [Stop], None)"
  by (simp add: catch_block_def push_accepted)

lemma catch_block_refused:
  "MAX_QUEUE_LENGTH \<le> pending r \<Longrightarrow> error_name e \<noteq> ''AbortError'' \<Longrightarrow>
     catch_block r e = ([], Some overflow_error)"
  by (simp add: catch_block_def push_refused)

lemma count_catch_block:
  "count_list (fst (catch_block r e)) ReleaseLock = 0"
  "count_list (fst (catch_block r e)) GetReader = 0"
  by (simp_all add: catch_block_def split: sum.splits)

lemma subscribe_blank:
  "(case message of None \<Rightarrow> True | Some m \<Rightarrow> trim m = []) \<Longrightarrow>
     subscribe c message fetch = Some ([Push validation_error, Stop], None)"
  by (simp add: subscribe_def push_at_start split: option.splits)

lemma subscribe_fetch_fails:
  "trim m \<noteq> [] \<Longrightarrow>
     subscribe c (Some m) (Inl e) = Some (preceded [Fetch m] (catch_block (await c start) e))"
  by (simp add: subscribe_def)

lemma subscribe_not_ok:
  "trim m \<noteq> [] \<Longrightarrow> \<not> ok r \<Longrightarrow>
     subscribe c (Some m) (Inr r) =
       Some (case error_detail r of
               Inl e \<Rightarrow> preceded [Fetch m] (catch_block (await c (await c start)) e)
             | Inr detail \<Rightarrow> ([Fetch m, Push (api_error r detail), Stop], None))"
  by (simp add: subscribe_def push_accepted[OF pending_after_awaits(2)] split: sum.splits)

lemma subscribe_no_body:
  "trim m \<noteq> [] \<Longrightarrow> ok r \<Longrightarrow> body r = None \<Longrightarrow>
     subscribe c (Some m) (Inr r) =
       Some (preceded [Fetch m] (catch_block (await c start) (null_property_error ''getReader'')))"
  by (simp add: subscribe_def)

lemma subscribe_stream:
  assumes "trim m \<noteq> []" "ok r" "body r = Some up"
    "stream_body c (await c start) up = Some (evs, r', x)"
  shows "subscribe c (Some m) (Inr r) =
       Some (case x of
               None \<Rightarrow> (Fetch m # GetReader # evs, None)
             | Some e \<Rightarrow> preceded (Fetch m # GetReader # evs) (catch_block r' e))"
  using assms by (simp add: subscribe_def split: option.splits)

text \<open>
  C7. The lock of the reader is released exactly once on every way out of the read loop:
  the upstream may end its data, or have a read throw, the \<^verbatim>\<open>AbortError\<close> of a cancelled
  request among the exceptions, or a \<^verbatim>\<open>push\<close> may throw; in each case the release is the
  last thing the block does, and it happens once. Over a whole run there are as many
  releases as acquisitions, and at most one.
\<close>

theorem reader_released_once:
  "(\<exists>evs r' x. stream_body c r up = Some (evs, r', x) \<and> count_list evs ReleaseLock = 1 \<and>
      last evs = ReleaseLock) \<and>
   (\<exists>tr x. subscribe c message fetch = Some (tr, x) \<and>
      count_list tr ReleaseLock = count_list tr GetReader \<and> count_list tr GetReader \<le> 1)"
proof
  from stream_body_pushes[of c r up]
  show "\<exists>evs r' x. stream_body c r up = Some (evs, r', x) \<and> count_list evs ReleaseLock = 1 \<and>
      last evs = ReleaseLock"
    by blast
next
  let ?G = "\<exists>tr x. subscribe c message fetch = Some (tr, x) \<and>
      count_list tr ReleaseLock = count_list tr GetReader \<and> count_list tr GetReader \<le> 1"
  have pre: "\<exists>tr x. preceded [Fetch q] (catch_block s e) = (tr, x) \<and>
      count_list tr ReleaseLock = count_list tr GetReader \<and> count_list tr GetReader \<le> 1"
    for q s e
    by (simp add: preceded_def count_catch_block)
  show ?G
  proof (cases "case message of None \<Rightarrow> True | Some m \<Rightarrow> trim m = []")
    case True
    from subscribe_blank[OF this, of c fetch] show ?thesis by simp
  next
    case False
    then obtain m where m: "message = Some m" "trim m \<noteq> []"
      by (auto split: option.splits)
    show ?thesis
    proof (cases fetch)
      case (Inl e)
      with m subscribe_fetch_fails[of m c e] pre[of m "await c start" e] show ?thesis
        by auto
    next
      case (Inr resp)
      show ?thesis
      proof (cases "ok resp")
        case False
        show ?thesis
        proof (cases "error_detail resp")
          case (Inl e)
          with subscribe_not_ok[OF m(2) False, of c] m(1) Inr
            pre[of m "await c (await c start)" e]
          show ?thesis by auto
        next
          case (Inr d)
          with subscribe_not_ok[OF m(2) False, of c] m(1) \<open>fetch = Inr resp\<close>
          show ?thesis by simp
        qed
      next
        case True
        show ?thesis
        proof (cases "body resp")
          case None
          with subscribe_no_body[OF m(2) True None, of c] m(1) Inr
            pre[of m "await c start" "null_property_error ''getReader''"]
          show ?thesis by auto
        next
          case (Some u)
          from stream_body_pushes[of c "await c start" u] obtain evs r' x where
            s: "stream_body c (await c start) u = Some (evs, r', x)"
               "count_list evs ReleaseLock = 1" "count_list evs GetReader = 0" by blast
          show ?thesis
          proof (cases x)
            case None
            with subscribe_stream[OF m(2) True Some s(1)] m(1) Inr s(2,3) show ?thesis
              by simp
          next
            case (Some e)
            with subscribe_stream[OF m(2) True \<open>body resp = Some u\<close> s(1)] m(1) Inr s(2,3)
            show ?thesis
              by (simp add: preceded_def count_catch_block)
          qed
        qed
      qed
    qed
  qed
qed

lemma trim_empty_iff: "trim s = [] \<longleftrightarrow> list_all js_space s"
proof
  assume "list_all js_space s"
  then have d: "dropWhile js_space s = []"
    by (simp add: list_all_iff)
  show "trim s = []"
    by (simp only: trim_def d rev.simps dropWhile.simps)
next
  assume "trim s = []"
  then have t: "\<forall>c\<in>set (dropWhile js_space s). js_space c"
    unfolding trim_def rev_is_Nil_conv dropWhile_eq_Nil_conv set_rev .
  have "dropWhile js_space s = []"
  proof (rule ccontr)
    assume ne: "dropWhile js_space s \<noteq> []"
    then have "\<not> js_space (hd (dropWhile js_space s))" by (rule hd_dropWhile)
    moreover from ne have "hd (dropWhile js_space s) \<in> set (dropWhile js_space s)"
      by (rule hd_in_set)
    ultimately show False using t by blast
  qed
  then show "list_all js_space s" by (simp add: list_all_iff)
qed

text \<open>
  C5. A message that is empty or made of whitespace only is rejected before the upstream
  is contacted: the run consists of one diagnostic event and the call of \<^verbatim>\<open>stop\<close>,
  and holds no request, whatever the upstream would have answered.
\<close>

theorem blank_message_rejected:
  "list_all js_space m \<Longrightarrow>
     subscribe c (Some m) fetch = Some ([Push validation_error, Stop], None) \<and>
     (\<forall>tr x. subscribe c (Some m) fetch = Some (tr, x) \<longrightarrow> (\<forall>q. Fetch q \<notin> set tr))"
proof -
  assume "list_all js_space m"
  then have "trim m = []" by (simp add: trim_empty_iff)
  then have "subscribe c (Some m) fetch = Some ([Push validation_error, Stop], None)"
    using subscribe_blank[of "Some m" c fetch] by simp
  then show ?thesis by auto
qed

theorem blank_message_rejected_witness:
  "list_all js_space (ascii '' '' @ [LF, 0x3000]) \<and>
   subscribe (\<lambda>k. 0) (Some (ascii '' '' @ [LF, 0x3000])) (Inl (JsError ''TypeError'' [])) =
     Some ([Push validation_error, Stop], None)"
proof -
  have b: "list_all js_space (ascii '' '' @ [LF, 0x3000])" by code_simp
  from blank_message_rejected[OF b, of "\<lambda>k. 0" "Inl (JsError ''TypeError'' [])"] b
  show ?thesis by simp
qed

text \<open>Any other message does reach the upstream: the run starts with the request.\<close>

lemma nonblank_message_fetches:
  "\<not> list_all js_space m \<Longrightarrow> \<exists>tr x. subscribe c (Some m) fetch = Some (Fetch m # tr, x)"
proof -
  assume "\<not> list_all js_space m"
  then have m: "trim m \<noteq> []" by (simp add: trim_empty_iff)
  show ?thesis
  proof (cases fetch)
    case (Inl e)
    with subscribe_fetch_fails[OF m, of c e] show ?thesis by (simp add: preceded_def)
  next
    case (Inr r)
    show ?thesis
    proof (cases "ok r")
      case False
      from subscribe_not_ok[OF m False, of c] Inr show ?thesis
        by (cases "error_detail r") (simp_all add: preceded_def)
    next
      case True
      show ?thesis
      proof (cases "body r")
        case None
        from subscribe_no_body[OF m True None, of c] Inr show ?thesis
          by (simp add: preceded_def)
      next
        case (Some u)
        from stream_body_pushes[of c "await c start" u] obtain evs r' x where
          s: "stream_body c (await c start) u = Some (evs, r', x)" by blast
        from subscribe_stream[OF m True Some s] Inr show ?thesis
          by (cases x) (simp_all add: preceded_def)
      qed
    qed
  qed
qed

text \<open>
  What the outer \<^verbatim>\<open>catch\<close> achieves. An exception named \<^verbatim>\<open>AbortError\<close>, which is what the
  abort of the request in flight raises, ends the producer with the call of \<^verbatim>\<open>stop\<close>
  and no diagnostic event. Any other exception is followed by one diagnostic event and
  the call of \<^verbatim>\<open>stop\<close>, as long as the \<^verbatim>\<open>Repeater\<close> accepts that event: always when the
  request itself is rejected, and after a failure in the read loop when fewer than
  \<open>MAX_QUEUE_LENGTH\<close> values are pending.
\<close>

lemma rejected_fetch_run:
  "trim m \<noteq> [] \<Longrightarrow>
     subscribe c (Some m) (Inl e) =
       Some (Fetch m #
         (if error_name e = ''AbortError'' then [] else [Push (service_error e)]) @ [Stop], None)"
  by (simp add: subscribe_fetch_fails catch_block_accepted[OF pending_after_awaits(1)]
        preceded_def)

lemma rejected_read_run:
  assumes "trim m \<noteq> []" "ok r" "body r = Some up"
    "stream_body c (await c start) up = Some (evs, r', Some e)"
    "error_name e = ''AbortError'' \<or> pending r' < MAX_QUEUE_LENGTH"
  shows "subscribe c (Some m) (Inr r) =
       Some (Fetch m # GetReader # evs @
         (if error_name e = ''AbortError'' then [] else [Push (service_error e)]) @ [Stop], None)"
proof (cases "error_name e = ''AbortError''")
  case True
  with subscribe_stream[OF assms(1-4)] show ?thesis
    by (simp add: catch_block_abort preceded_def)
next
  case False
  with assms(5) have "pending r' < MAX_QUEUE_LENGTH" by simp
  with subscribe_stream[OF assms(1-4)] show ?thesis
    by (simp add: catch_block_accepted preceded_def)
qed

text \<open>A chunk of \<open>n\<close> line feeds gives \<open>n\<close> segments, and the \<^verbatim>\<open>Repeater\<close> accepts as
  many of them as it has room for.\<close>

lemma break_point_LF: "break_point (LF # s) = (0, 1)"
  by (simp add: break_point_def cjk_class_LF)

lemma break_point_Nil: "break_point [] = (- 1, 1)"
  by (simp add: break_point_def)

lemma segment_loop_LFs:
  "segment_loop (replicate n LF) acc = Some (acc @ replicate n [LF], [])"
proof (induction n arbitrary: acc)
  case 0
  show ?case by (subst segment_loop.simps) (simp add: break_point_Nil)
next
  case (Suc n)
  have "segment_loop (replicate (Suc n) LF) acc = segment_loop (replicate n LF) (acc @ [[LF]])"
    by (subst segment_loop.simps)
       (simp add: break_point_LF substring1_def substring2_def clamp_index_def)
  also have "\<dots> = Some ((acc @ [[LF]]) @ replicate n [LF], [])"
    by (rule Suc.IH)
  finally show ?case by (simp add: replicate_app_Cons_same)
qed

lemma push_all_overflow:
  "pending r + int k = MAX_QUEUE_LENGTH \<Longrightarrow>
     push_all r (replicate (k + Suc j) s) =
       (replicate k (Push s), r\<lparr>pending := MAX_QUEUE_LENGTH\<rparr>, Some overflow_error)"
proof (induction k arbitrary: r)
  case 0
  then have "pending r = MAX_QUEUE_LENGTH" by simp
  then show ?case by (simp add: push_def)
next
  case (Suc k)
  then have lt: "pending r < MAX_QUEUE_LENGTH" by simp
  from Suc.prems have "pending (r\<lparr>pending := pending r + 1\<rparr>) + int k = MAX_QUEUE_LENGTH"
    by simp
  from Suc.IH[OF this] push_accepted[OF lt, of s] show ?case by simp
qed

text \<open>
  C3. A first chunk of 1100 line feeds, with a consumer that has asked for one value and
  waits: the scan returns 1100 segments, the first goes to the consumer, 1024 more are
  pending, and call 1026 of \<^verbatim>\<open>push\<close> on line 174 throws a \<^verbatim>\<open>RepeaterOverflowError\<close>.
  The reader is released, the outer \<^verbatim>\<open>catch\<close> takes the exception, which is not an
  \<^verbatim>\<open>AbortError\<close>, and its own \<^verbatim>\<open>push\<close> on line 190 throws again: no diagnostic event
  is pushed, \<^verbatim>\<open>stop\<close> is not called, and the exception leaves the executor.
\<close>

theorem overflow_leaves_uncaught:
  "subscribe (\<lambda>k. if k = 0 then 1 else 0) (Some (ascii ''hi''))
     (Inr \<lparr>status = 200, statusText = ascii ''OK'', json = Inr JNull,
           body = Some (Data (replicate 1100 LF) rest)\<rparr>) =
     Some (Fetch (ascii ''hi'') # GetReader # replicate 1025 (Push [LF]) @ [ReleaseLock],
           Some overflow_error) \<and>
   error_name overflow_error \<noteq> ''AbortError''"
proof -
  define c :: consumer where "c = (\<lambda>k. if k = 0 then 1 else 0)"
  define R where "R = \<lparr>status = 200, statusText = ascii ''OK'', json = Inr JNull,
           body = Some (Data (replicate 1100 LF) rest)\<rparr>"
  define r1 where "r1 = await c (await c start)"
  define r2 where "r2 = r1\<lparr>pending := MAX_QUEUE_LENGTH\<rparr>"
  have t: "trim (ascii ''hi'') \<noteq> []" by code_simp
  have k: "ok R" by (simp add: ok_def R_def)
  have b: "body R = Some (Data (replicate 1100 LF) rest)" by (simp add: R_def)
  have p1: "pending r1 + int 1025 = MAX_QUEUE_LENGTH"
    by (simp add: r1_def await_def start_def c_def MAX_QUEUE_LENGTH_def)
  have f: "feed [] (replicate 1100 LF) = Some (replicate 1100 [LF], [])"
    using segment_loop_LFs[of 1100 "[]"] by (simp add: feed_def)
  have "replicate 1100 [LF] = replicate (1025 + Suc 74) [LF]" by simp
  with push_all_overflow[OF p1, of 74 "[LF]"] have
    pa: "push_all r1 (replicate 1100 [LF]) = (replicate 1025 (Push [LF]), r2, Some overflow_error)"
    by (simp only: r2_def)
  from f pa have
    "read_loop c (await c start) [] (Data (replicate 1100 LF) rest) =
       Some (replicate 1025 (Push [LF]), r2, Inl overflow_error)"
    by (simp add: r1_def)
  then have s: "stream_body c (await c start) (Data (replicate 1100 LF) rest) =
       Some (replicate 1025 (Push [LF]) @ [ReleaseLock], r2, Some overflow_error)"
    by (simp add: stream_body_def)
  have n: "error_name overflow_error \<noteq> ''AbortError''" by (simp add: overflow_error_def)
  have "MAX_QUEUE_LENGTH \<le> pending r2" by (simp add: r2_def)
  from catch_block_refused[OF this n] subscribe_stream[OF t k b s] n show ?thesis
    unfolding c_def R_def by (simp add: preceded_def)
qed

text \<open>
  A response with a status outside 200 to 299 for which line 131 evaluates without an
  exception gives one diagnostic event, which holds the digits of the status, and the
  call of \<^verbatim>\<open>stop\<close>.
\<close>

lemma api_error_has_status: "sublist (show_nat (status r)) (api_error r detail)"
  unfolding api_error_def by (rule sublist_appendI)

lemma rejection_event:
  assumes "trim m \<noteq> []" "\<not> ok r" "error_detail r = Inr detail"
  shows "subscribe c (Some m) (Inr r) = Some ([Fetch m, Push (api_error r detail), Stop], None) \<and>
           sublist (show_nat (status r)) (api_error r detail)"
  using subscribe_not_ok[OF assms(1,2), of c] assms(3) api_error_has_status[of r detail]
  by simp

text \<open>
  C4. A response with status 401 whose payload is the JSON text \<^verbatim>\<open>null\<close>:
  \<^verbatim>\<open>response.json()\<close> resolves to \<^verbatim>\<open>null\<close>, reading \<^verbatim>\<open>errorData.error\<close> throws a
  \<^verbatim>\<open>TypeError\<close>, and the outer \<^verbatim>\<open>catch\<close> pushes the message of that exception. The
  run is still one diagnostic event and the call of \<^verbatim>\<open>stop\<close>, but the message does not
  hold the status.
\<close>

theorem rejection_with_null_payload:
  "subscribe c (Some (ascii ''hi''))
     (Inr \<lparr>status = 401, statusText = ascii ''Unauthorized'', json = Inr JNull, body = None\<rparr>) =
     Some ([Fetch (ascii ''hi''), Push (service_error (null_property_error ''error'')), Stop],
           None) \<and>
   \<not> sublist (show_nat 401) (service_error (null_property_error ''error''))"
proof -
  define R where
    "R = \<lparr>status = 401, statusText = ascii ''Unauthorized'', json = Inr JNull, body = None\<rparr>"
  have t: "trim (ascii ''hi'') \<noteq> []" by code_simp
  have k: "\<not> ok R" by (simp add: ok_def R_def)
  have d: "error_detail R = Inl (null_property_error ''error'')"
    by (simp add: error_detail_def R_def)
  have n: "error_name (null_property_error ''error'') \<noteq> ''AbortError''"
    by (simp add: null_property_error_def)
  have s: "\<not> sublist (show_nat 401) (service_error (null_property_error ''error''))"
    by code_simp
  from subscribe_not_ok[OF t k, of c] d n s show ?thesis
    unfolding R_def
    by (simp add: catch_block_accepted[OF pending_after_awaits(2)] preceded_def)
qed

end
